theory Spec2Isabelle
  imports Complex_Main
begin

section \<open>Numbers\<close>

text \<open>
  The program computes with Python's \<^verbatim>\<open>decimal.Decimal\<close> (\<open>chests\<close>, \<open>mimics\<close> and the
  three fields of a value) and with unbounded Python integers (every other counter).
  A finite \<^verbatim>\<open>Decimal\<close> denotes a rational number and is compared and hashed by that number,
  so it is modelled as a \<^typ>\<open>rat\<close>; integers are \<^typ>\<open>int\<close>.

  The solver \<open>calculate_value\<close> and its transition \<open>CH_next\<close> are modelled in exact arithmetic.
  The default decimal context rounds every result to 28 significant digits, half to even;
  \<open>decimal_round\<close> below is that rounding and \<open>CH_next_decimal\<close> the transition with the
  context's subtraction.  The two transitions agree on the states whose \<open>chests\<close> and \<open>mimics\<close>
  are whole numbers up to \<open>10\<^sup>2\<^sup>8\<close> (\<open>CH_next_decimal_whole\<close>), and they differ from
  \<open>chests = 10\<^sup>2\<^sup>9\<close> on.  The special values (NaN, infinities), the exponent limits of the
  context and the interpreter's recursion limit are left out.

  A division by zero is an exception of the decimal module, trapped by the default context:
  \<^verbatim>\<open>DivisionByZero\<close> for a non-zero dividend, \<^verbatim>\<open>InvalidOperation\<close> for \<open>0 / 0\<close>.
\<close>

datatype error = DivisionByZero | InvalidOperation

definition decimal_div :: "rat \<Rightarrow> rat \<Rightarrow> error + rat" where
  "decimal_div a b =
     (if b = 0 then (if a = 0 then Inl InvalidOperation else Inl DivisionByZero)
      else Inr (a / b))"

text \<open>
  \<^verbatim>\<open>ARMORY_RATE = 0.005\<close> is a Python \<^verbatim>\<open>float\<close> literal, that is the binary64 number nearest
  to \<open>1/200\<close>: a multiple of \<open>2\<^sup>-\<^sup>6\<^sup>0\<close> with a 53-bit significand.  \<^verbatim>\<open>Decimal(x)\<close> of a float
  \<open>x\<close> is the exact value of \<open>x\<close>.
\<close>

definition ARMORY_RATE :: rat where
  "ARMORY_RATE = 5764607523034235 / 2 ^ 60"

text \<open>
  \<^verbatim>\<open>loot = 1 - armory\<close> with a float \<open>armory\<close> is a binary64 subtraction.  For
  \<open>0 < x \<le> 1/2\<close> the exact difference lies in \<open>[1/2, 1)\<close>, where binary64 numbers are the
  multiples of \<open>2\<^sup>-\<^sup>5\<^sup>3\<close>; the result is the nearest of them (no tie arises for
  \<open>ARMORY_RATE\<close>).
\<close>

definition float_one_minus :: "rat \<Rightarrow> rat" where
  "float_one_minus x = of_int (round ((1 - x) * 2 ^ 53)) / 2 ^ 53"

text \<open>
  The rounding of the default decimal context (\<^verbatim>\<open>prec = 28\<close>, \<^verbatim>\<open>ROUND_HALF_EVEN\<close>): an exact
  result \<open>x \<noteq> 0\<close> with \<open>10\<^sup>e \<le> |x| < 10\<^sup>e\<^sup>+\<^sup>1\<close> is rounded to a multiple of \<open>10\<^sup>e\<^sup>-\<^sup>2\<^sup>7\<close>.
  \<open>adjusted\<close> computes \<open>e\<close> (\<^verbatim>\<open>Decimal.adjusted()\<close>) by counting divisions or multiplications
  by 10; the first argument of the two counting functions bounds the number of steps and is
  large enough (\<open>10\<^sup>k \<le> y\<close> gives \<open>k < y\<close>, and \<open>y\<close> with denominator \<open>b\<close> is at least \<open>1/b\<close>).
\<close>

definition round_half_even :: "rat \<Rightarrow> int" where
  "round_half_even x =
     (let f = \<lfloor>x\<rfloor>; r = x - of_int f
      in if r < 1 / 2 then f else if 1 / 2 < r then f + 1 else if even f then f else f + 1)"

fun digits_above :: "nat \<Rightarrow> rat \<Rightarrow> nat" where
  "digits_above 0 y = 0"
| "digits_above (Suc n) y = (if y < 10 then 0 else Suc (digits_above n (y / 10)))"

fun digits_below :: "nat \<Rightarrow> rat \<Rightarrow> nat" where
  "digits_below 0 y = 0"
| "digits_below (Suc n) y = (if 1 \<le> y then 0 else Suc (digits_below n (y * 10)))"

definition adjusted :: "rat \<Rightarrow> int" where
  "adjusted x =
     (let y = \<bar>x\<bar>
      in if 1 \<le> y then int (digits_above (nat \<lfloor>y\<rfloor>) y)
         else - int (digits_below (nat (snd (quotient_of y))) y))"

definition pow10 :: "int \<Rightarrow> rat" where
  "pow10 k = (if 0 \<le> k then 10 ^ nat k else 1 / 10 ^ nat (- k))"

definition decimal_round :: "rat \<Rightarrow> rat" where
  "decimal_round x =
     (if x = 0 then 0
      else let q = pow10 (adjusted x - 27) in of_int (round_half_even (x / q)) * q)"

definition decimal_sub :: "rat \<Rightarrow> rat \<Rightarrow> rat" where
  "decimal_sub a b = decimal_round (a - b)"

section \<open>Chest types, states and values\<close>

datatype CHType = LOOT | MIMIC | SAVER | DOUBLER

record CHValue =
  loot :: rat
  perfect :: rat
  armory :: rat

record CH =
  chests :: rat
  mimics :: rat
  savers :: int
  saves :: int
  ad :: bool
  csaves :: int
  doublers :: int
  doubles :: int
  dd :: bool
  perfect :: bool
  armory :: bool
  chase :: bool

text \<open>
  Equality of two \<open>CH\<close> objects (\<^verbatim>\<open>__eq__\<close>, \<^verbatim>\<open>__hash__\<close>) compares the twelve fields, which
  is the equality of the record.  The class attribute \<^verbatim>\<open>CH.solved\<close>, a dictionary from
  states to values, is a map that the solver takes and returns.
\<close>

type_synonym solved = "CH \<rightharpoonup> CHValue"

text \<open>\<^verbatim>\<open>CH.__init__\<close>: two or more doublers force \<open>dd\<close> and clear \<open>perfect\<close>.\<close>

definition CH_init ::
  "rat \<Rightarrow> rat \<Rightarrow> int \<Rightarrow> int \<Rightarrow> bool \<Rightarrow> int \<Rightarrow> int \<Rightarrow> int \<Rightarrow> bool \<Rightarrow> bool \<Rightarrow> bool \<Rightarrow> CH" where
  "CH_init chests0 mimics0 savers0 saves0 ad0 csaves0 doublers0 doubles0 dd0 perfect0 armory0 =
     (let dd1 = (if doublers0 > 1 then True else dd0);
          perfect1 = (if doublers0 > 1 then False else perfect0)
      in \<lparr> chests = chests0, mimics = mimics0, savers = savers0, saves = saves0, ad = ad0,
           csaves = csaves0, doublers = doublers0, doubles = doubles0, dd = dd1,
           perfect = perfect1, armory = armory0, chase = perfect1 \<rparr>)"

text \<open>\<^verbatim>\<open>CH.copy\<close> builds the copy with the constructor and then restores \<open>chase\<close>.\<close>

definition CH_copy :: "CH \<Rightarrow> CH" where
  "CH_copy self =
     (CH_init (chests self) (mimics self) (savers self) (saves self) (ad self) (csaves self)
        (doublers self) (doubles self) (dd self) (CH.perfect self) (CH.armory self))
     \<lparr> chase := chase self \<rparr>"

text \<open>\<^verbatim>\<open>CHValue.__add__\<close>, \<^verbatim>\<open>CHValue.__mul__\<close> and \<^verbatim>\<open>CHValue.__rmul__\<close>.\<close>

definition CHValue_add :: "CHValue \<Rightarrow> CHValue \<Rightarrow> CHValue" where
  "CHValue_add self other =
     \<lparr> loot = loot self + loot other,
       perfect = CHValue.perfect self + CHValue.perfect other,
       armory = CHValue.armory self + CHValue.armory other \<rparr>"

definition CHValue_mul :: "CHValue \<Rightarrow> rat \<Rightarrow> CHValue" where
  "CHValue_mul self other =
     \<lparr> loot = loot self * other,
       perfect = CHValue.perfect self * other,
       armory = CHValue.armory self * other \<rparr>"

definition CHValue_rmul :: "rat \<Rightarrow> CHValue \<Rightarrow> CHValue" where
  "CHValue_rmul other self = CHValue_mul self other"

section \<open>Stopping rule, default value, transition and chances\<close>

definition CH_stop :: "CH \<Rightarrow> solved \<Rightarrow> bool" where
  "CH_stop self solved =
     (let doublers1 = (if doublers self > 0 then 1 else 0);
          nonloot = mimics self + of_int (savers self) + doublers1;
          default = (nonloot \<ge> chests self \<or> chests self \<le> 0)
      in self \<in> dom solved \<or> default)"

definition CH_value :: "CH \<Rightarrow> solved \<Rightarrow> CHValue" where
  "CH_value self solved =
     (let perfect1 = (mimics self \<ge> chests self \<and> chests self \<ge> 0);
          default = \<lparr> loot = 0, perfect = (if perfect1 then 1 else 0), armory = 0 \<rparr>
      in case solved self of Some v \<Rightarrow> v | None \<Rightarrow> default)"

definition CH_next :: "CH \<Rightarrow> CHType \<Rightarrow> CH" where
  "CH_next self t =
     (let ch = CH_copy self;
          ch = ch \<lparr> chests := chests ch - 1 \<rparr>;
          ch = (if csaves self > 0 then ch \<lparr> csaves := csaves ch - 1 \<rparr> else ch)
      in case t of
           LOOT \<Rightarrow> (if doubles self > 0 then ch \<lparr> doubles := doubles ch - 1 \<rparr> else ch)
         | MIMIC \<Rightarrow>
             (let ch = ch \<lparr> mimics := mimics ch - 1 \<rparr>
              in if csaves self \<le> 0 then ch \<lparr> saves := saves ch - 1 \<rparr> else ch)
         | SAVER \<Rightarrow>
             (let ch = ch \<lparr> savers := savers ch - 1 \<rparr>;
                  ch = ch \<lparr> saves := saves ch + 1 \<rparr>
              in if \<not> dd self \<and> doubles self > 0
                 then (ch \<lparr> saves := saves ch + 1 \<rparr>) \<lparr> doubles := doubles ch - 1 \<rparr>
                 else ch)
         | DOUBLER \<Rightarrow>
             (let ch = ch \<lparr> doublers := doublers ch - 1 \<rparr>;
                  ch = ch \<lparr> doubles := doubles ch + 1 \<rparr>
              in if csaves self > 1 \<and> ad self \<and> \<not> dd self
                 then ch \<lparr> chase := \<not> CH.perfect self \<rparr>
                 else ch))"

text \<open>
  The same transition with the subtractions of the decimal context: \<^verbatim>\<open>ch.chests -= 1\<close> and
  \<^verbatim>\<open>ch.mimics -= 1\<close> are rounded; the other counters are integers.
\<close>

definition CH_next_decimal :: "CH \<Rightarrow> CHType \<Rightarrow> CH" where
  "CH_next_decimal self t =
     (let ch = CH_copy self;
          ch = ch \<lparr> chests := decimal_sub (chests ch) 1 \<rparr>;
          ch = (if csaves self > 0 then ch \<lparr> csaves := csaves ch - 1 \<rparr> else ch)
      in case t of
           LOOT \<Rightarrow> (if doubles self > 0 then ch \<lparr> doubles := doubles ch - 1 \<rparr> else ch)
         | MIMIC \<Rightarrow>
             (let ch = ch \<lparr> mimics := decimal_sub (mimics ch) 1 \<rparr>
              in if csaves self \<le> 0 then ch \<lparr> saves := saves ch - 1 \<rparr> else ch)
         | SAVER \<Rightarrow>
             (let ch = ch \<lparr> savers := savers ch - 1 \<rparr>;
                  ch = ch \<lparr> saves := saves ch + 1 \<rparr>
              in if \<not> dd self \<and> doubles self > 0
                 then (ch \<lparr> saves := saves ch + 1 \<rparr>) \<lparr> doubles := doubles ch - 1 \<rparr>
                 else ch)
         | DOUBLER \<Rightarrow>
             (let ch = ch \<lparr> doublers := doublers ch - 1 \<rparr>;
                  ch = ch \<lparr> doubles := doubles ch + 1 \<rparr>
              in if csaves self > 1 \<and> ad self \<and> \<not> dd self
                 then ch \<lparr> chase := \<not> CH.perfect self \<rparr>
                 else ch))"

definition chance_doubler :: "CH \<Rightarrow> error + rat" where
  "chance_doubler self =
     (let chests1 = chests self - (if ad self then of_int (savers self) else 0);
          doublers1 = (if doublers self > 0 then 1 else 0)
      in decimal_div doublers1 chests1)"

definition chance_mimic :: "CH \<Rightarrow> error + rat" where
  "chance_mimic self =
     (let chests1 = chests self - (if ad self then of_int (savers self) else 0)
      in decimal_div (mimics self) chests1)"

definition chance_loot :: "CH \<Rightarrow> error + rat" where
  "chance_loot self =
     (let savers1 = (if ad self then 0 else of_int (savers self));
          chests1 = chests self - (if ad self then of_int (savers self) else 0);
          doublers1 = (if doublers self > 0 then 1 else 0)
      in decimal_div (chests1 - mimics self - savers1 - doublers1) chests1)"

definition CH_chance :: "CH \<Rightarrow> CHType \<Rightarrow> error + rat" where
  "CH_chance self t =
     (case t of
        LOOT \<Rightarrow> chance_loot self
      | MIMIC \<Rightarrow> chance_mimic self
      | SAVER \<Rightarrow> decimal_div (of_int (savers self)) (chests self)
      | DOUBLER \<Rightarrow> chance_doubler self)"

section \<open>The solver\<close>

text \<open>
  \<open>calculate_value ch solved\<close> returns the exception raised, or the value together with the
  dictionary after the call and the list of the states that \<^verbatim>\<open>ch.next\<close> returned during the
  call, in the order of the calls.  Every such state is at once the argument of a
  recursive call, so the list is also the list of the states the solver recursed into.

  \<open>add_branch\<close> is the statement
  \<^verbatim>\<open>value += ch.chance(type) * calculate_value(ch.next(type))\<close>: the chance is evaluated
  first, and an exception there or in the recursive call leaves the function.
\<close>

type_synonym outcome = "error + (CHValue \<times> solved \<times> CH list)"

definition add_branch :: "CH \<Rightarrow> CHType \<Rightarrow> CHValue \<Rightarrow> CH list \<Rightarrow> outcome \<Rightarrow> outcome" where
  "add_branch ch t val tr rec =
     (case CH_chance ch t of
        Inl e \<Rightarrow> Inl e
      | Inr p \<Rightarrow>
          (case rec of
             Inl e \<Rightarrow> Inl e
           | Inr (v, solved1, tr1) \<Rightarrow>
               Inr (CHValue_add val (CHValue_rmul p v), solved1, tr @ CH_next ch t # tr1)))"

function calculate_value :: "CH \<Rightarrow> solved \<Rightarrow> outcome" where
  "calculate_value ch solved =
     (let value0 = CH_value ch solved in
      if CH_stop ch solved then Inr (value0, solved, [])
      else if savers ch > 0 \<and> ad ch \<and>
              (chase ch \<and> doubles ch > 0 \<or> \<not> chase ch \<and> csaves ch \<le> 0 \<or> doublers ch \<le> 0)
      then
        (case calculate_value (CH_next ch SAVER) solved of
           Inl e \<Rightarrow> Inl e
         | Inr (v, solved1, tr1) \<Rightarrow> Inr (v, solved1, CH_next ch SAVER # tr1))
      else
        (case (if savers ch > 0 \<and> \<not> ad ch
               then add_branch ch SAVER value0 []
                      (calculate_value (CH_next ch SAVER) solved)
               else Inr (value0, solved, [])) of
           Inl e \<Rightarrow> Inl e
         | Inr (value1, solved1, tr1) \<Rightarrow>
        (case (if doublers ch > 0
               then add_branch ch DOUBLER value1 tr1
                      (calculate_value (CH_next ch DOUBLER) solved1)
               else Inr (value1, solved1, tr1)) of
           Inl e \<Rightarrow> Inl e
         | Inr (value2, solved2, tr2) \<Rightarrow>
        (case (if mimics ch > 0 \<and> (saves ch > 0 \<or> csaves ch > 0)
               then add_branch ch MIMIC value2 tr2
                      (calculate_value (CH_next ch MIMIC) solved2)
               else Inr (value2, solved2, tr2)) of
           Inl e \<Rightarrow> Inl e
         | Inr (value3, solved3, tr3) \<Rightarrow>
        (case CH_chance ch LOOT of
           Inl e \<Rightarrow> Inl e
         | Inr p \<Rightarrow>
             (let gain = (if doubles ch > 0 then 2 else 1);
                  armory1 = (if CH.armory ch then ARMORY_RATE else 0);
                  loot1 = (if CH.armory ch then float_one_minus ARMORY_RATE else 1);
                  value4 = CHValue_add value3
                             (CHValue_rmul (p * gain)
                                \<lparr> loot = loot1, perfect = 0, armory = armory1 \<rparr>)
              in case add_branch ch LOOT value4 tr3
                        (calculate_value (CH_next ch LOOT) solved3) of
                   Inl e \<Rightarrow> Inl e
                 | Inr (value5, solved5, tr5) \<Rightarrow>
                     Inr (value5, solved5(ch \<mapsto> value5), tr5)))))))"
  by pat_completeness auto

lemma chests_CH_next: "chests (CH_next ch t) = chests ch - 1"
  by (cases t) (simp_all add: CH_next_def CH_copy_def CH_init_def Let_def)

lemma CH_stop_chests: "\<not> CH_stop ch solved \<Longrightarrow> 0 < chests ch"
  by (simp add: CH_stop_def Let_def)

lemma CH_next_ceiling: "\<lceil>chests (CH_next ch t)\<rceil> < \<lceil>chests ch\<rceil>"
  by (simp add: chests_CH_next)

termination calculate_value
  by (relation "measure (\<lambda>(ch, solved). nat \<lceil>chests ch\<rceil>)")
     (simp_all add: CH_stop_chests CH_next_ceiling)

declare calculate_value.simps [simp del]

section \<open>Auxiliary notions\<close>

text \<open>
  Three names for parts of the body of \<open>calculate_value\<close>: the condition under which the
  skip-priority strategy opens a saver at once (the three \<^verbatim>\<open>return\<close> statements of the saver
  block), a guarded \<open>add_branch\<close>, and the immediate reward of a loot chest.
\<close>

definition saver_first :: "CH \<Rightarrow> bool" where
  "saver_first ch =
     (savers ch > 0 \<and> ad ch \<and>
      (chase ch \<and> doubles ch > 0 \<or> \<not> chase ch \<and> csaves ch \<le> 0 \<or> doublers ch \<le> 0))"

definition opt_branch ::
  "bool \<Rightarrow> CH \<Rightarrow> CHType \<Rightarrow> CHValue \<Rightarrow> solved \<Rightarrow> CH list \<Rightarrow> outcome \<Rightarrow> outcome" where
  "opt_branch g ch t val c tr rec = (if g then add_branch ch t val tr rec else Inr (val, c, tr))"

definition loot_reward :: "CH \<Rightarrow> rat \<Rightarrow> CHValue" where
  "loot_reward ch p =
     CHValue_rmul (p * (if doubles ch > 0 then 2 else 1))
       \<lparr> loot = (if CH.armory ch then float_one_minus ARMORY_RATE else 1), perfect = 0,
         armory = (if CH.armory ch then ARMORY_RATE else 0) \<rparr>"

text \<open>
  The condition under which the solver, called on a state that does not stop, calls
  \<^verbatim>\<open>next\<close> with a given chest type, and the states it can reach in this way: \<open>recurses s s'\<close>
  is proved below to hold for every state \<open>s'\<close> in the list that a call on \<open>s\<close> returns.
\<close>

definition branch_guard :: "CH \<Rightarrow> CHType \<Rightarrow> bool" where
  "branch_guard ch t =
     (case t of
        SAVER \<Rightarrow> saver_first ch \<or> savers ch > 0 \<and> \<not> ad ch
      | DOUBLER \<Rightarrow> \<not> saver_first ch \<and> doublers ch > 0
      | MIMIC \<Rightarrow> \<not> saver_first ch \<and> mimics ch > 0 \<and> (saves ch > 0 \<or> csaves ch > 0)
      | LOOT \<Rightarrow> \<not> saver_first ch)"

inductive recurses :: "CH \<Rightarrow> CH \<Rightarrow> bool" where
  child: "\<not> CH_stop s Map.empty \<Longrightarrow> branch_guard s t \<Longrightarrow> recurses s (CH_next s t)"
| below: "\<not> CH_stop s Map.empty \<Longrightarrow> branch_guard s t \<Longrightarrow> recurses (CH_next s t) s' \<Longrightarrow>
          recurses s s'"

text \<open>
  The value of a state without the dictionary: what the solver computes when nothing is
  stored.  A dictionary is sound when it holds such values only; \<open>call_ok\<close> says that a call
  that started from a sound dictionary returned such a value and left a sound dictionary.
\<close>

definition weighted_sum ::
  "CH \<Rightarrow> rat \<Rightarrow> CHValue \<Rightarrow> rat \<Rightarrow> CHValue \<Rightarrow> rat \<Rightarrow> CHValue \<Rightarrow> rat \<Rightarrow> CHValue \<Rightarrow> CHValue" where
  "weighted_sum s p1 v1 p2 v2 p3 v3 p4 v4 =
     (let value0 = CH_value s Map.empty;
          value1 = (if savers s > 0 \<and> \<not> ad s
                    then CHValue_add value0 (CHValue_rmul p1 v1) else value0);
          value2 = (if doublers s > 0
                    then CHValue_add value1 (CHValue_rmul p2 v2) else value1);
          value3 = (if mimics s > 0 \<and> (saves s > 0 \<or> csaves s > 0)
                    then CHValue_add value2 (CHValue_rmul p3 v3) else value2)
      in CHValue_add (CHValue_add value3 (loot_reward s p4)) (CHValue_rmul p4 v4))"

inductive expected :: "CH \<Rightarrow> CHValue \<Rightarrow> bool" where
  stopped: "CH_stop s Map.empty \<Longrightarrow> expected s (CH_value s Map.empty)"
| first: "\<not> CH_stop s Map.empty \<Longrightarrow> saver_first s \<Longrightarrow> expected (CH_next s SAVER) v \<Longrightarrow>
          expected s v"
| weighted:
    "\<not> CH_stop s Map.empty \<Longrightarrow> \<not> saver_first s \<Longrightarrow>
     (savers s > 0 \<and> \<not> ad s \<longrightarrow>
        CH_chance s SAVER = Inr p1 \<and> expected (CH_next s SAVER) v1) \<Longrightarrow>
     (doublers s > 0 \<longrightarrow>
        CH_chance s DOUBLER = Inr p2 \<and> expected (CH_next s DOUBLER) v2) \<Longrightarrow>
     (mimics s > 0 \<and> (saves s > 0 \<or> csaves s > 0) \<longrightarrow>
        CH_chance s MIMIC = Inr p3 \<and> expected (CH_next s MIMIC) v3) \<Longrightarrow>
     CH_chance s LOOT = Inr p4 \<Longrightarrow> expected (CH_next s LOOT) v4 \<Longrightarrow>
     expected s (weighted_sum s p1 v1 p2 v2 p3 v3 p4 v4)"

definition cache_sound :: "solved \<Rightarrow> bool" where
  "cache_sound c = (\<forall>k w. c k = Some w \<longrightarrow> expected k w)"

definition call_ok :: "CH \<Rightarrow> solved \<Rightarrow> CHValue \<Rightarrow> solved \<Rightarrow> CH list \<Rightarrow> bool" where
  "call_ok s c v c' tr = (cache_sound c \<longrightarrow> expected s v \<and> cache_sound c')"

text \<open>
  Two conditions on the counters of a state.  \<open>nonnegative\<close> is the condition of the data
  model on an initial state; \<open>counts_ok\<close> is the weaker one that every transition of the
  solver keeps (\<open>mimics\<close> is a decimal: a fractional number of mimics can drop below zero,
  but not below \<open>-1\<close>).
\<close>

definition nonnegative :: "CH \<Rightarrow> bool" where
  "nonnegative ch =
     (0 \<le> chests ch \<and> 0 \<le> mimics ch \<and> 0 \<le> savers ch \<and> 0 \<le> saves ch \<and> 0 \<le> csaves ch \<and>
      0 \<le> doublers ch \<and> 0 \<le> doubles ch)"

definition counts_ok :: "CH \<Rightarrow> bool" where
  "counts_ok ch = (0 \<le> savers ch \<and> 0 \<le> doublers ch \<and> - 1 < mimics ch)"

text \<open>The non-negative counters of a state whose decimals are whole numbers.\<close>

definition counts_whole :: "CH \<Rightarrow> bool" where
  "counts_whole ch =
     (0 \<le> chests ch \<and> chests ch \<in> \<int> \<and> 0 \<le> mimics ch \<and> mimics ch \<in> \<int> \<and>
      0 \<le> savers ch \<and> 0 \<le> saves ch \<and> 0 \<le> csaves ch \<and> 0 \<le> doublers ch)"

text \<open>A whole number from 0 to \<open>10\<^sup>2\<^sup>8\<close>: the decimal context subtracts 1 from it exactly.\<close>

definition whole_count :: "rat \<Rightarrow> bool" where
  "whole_count x = (x \<in> \<int> \<and> 0 \<le> x \<and> x \<le> 10 ^ 28)"


section \<open>Unfolding the solver\<close>

text \<open>The three paths through the body: stopped, saver first, weighted sum.\<close>

lemma calc_stop: "CH_stop ch c \<Longrightarrow> calculate_value ch c = Inr (CH_value ch c, c, [])"
  by (subst calculate_value.simps) (simp add: Let_def)

lemma calc_det:
  "\<not> CH_stop ch c \<Longrightarrow> saver_first ch \<Longrightarrow>
   calculate_value ch c =
     (case calculate_value (CH_next ch SAVER) c of
        Inl e \<Rightarrow> Inl e
      | Inr (v, c1, tr1) \<Rightarrow> Inr (v, c1, CH_next ch SAVER # tr1))"
  by (subst calculate_value.simps) (simp add: Let_def saver_first_def)

lemma calc_prob:
  "\<not> CH_stop ch c \<Longrightarrow> \<not> saver_first ch \<Longrightarrow>
   calculate_value ch c =
     (case opt_branch (savers ch > 0 \<and> \<not> ad ch) ch SAVER (CH_value ch c) c []
             (calculate_value (CH_next ch SAVER) c) of
        Inl e \<Rightarrow> Inl e
      | Inr (value1, c1, tr1) \<Rightarrow>
     (case opt_branch (doublers ch > 0) ch DOUBLER value1 c1 tr1
             (calculate_value (CH_next ch DOUBLER) c1) of
        Inl e \<Rightarrow> Inl e
      | Inr (value2, c2, tr2) \<Rightarrow>
     (case opt_branch (mimics ch > 0 \<and> (saves ch > 0 \<or> csaves ch > 0)) ch MIMIC value2 c2 tr2
             (calculate_value (CH_next ch MIMIC) c2) of
        Inl e \<Rightarrow> Inl e
      | Inr (value3, c3, tr3) \<Rightarrow>
     (case CH_chance ch LOOT of
        Inl e \<Rightarrow> Inl e
      | Inr p \<Rightarrow>
     (case add_branch ch LOOT (CHValue_add value3 (loot_reward ch p)) tr3
             (calculate_value (CH_next ch LOOT) c3) of
        Inl e \<Rightarrow> Inl e
      | Inr (value5, c5, tr5) \<Rightarrow> Inr (value5, c5(ch \<mapsto> value5), tr5))))))"
  apply (subst calculate_value.simps)
  apply (simp only: Let_def opt_branch_def loot_reward_def saver_first_def if_False if_True)
  done

lemma calc_probE:
  assumes "calculate_value ch c = Inr (v, c', tr)" "\<not> CH_stop ch c" "\<not> saver_first ch"
  obtains value1 c1 tr1 value2 c2 tr2 value3 c3 tr3 p c5 where
    "opt_branch (savers ch > 0 \<and> \<not> ad ch) ch SAVER (CH_value ch c) c []
       (calculate_value (CH_next ch SAVER) c) = Inr (value1, c1, tr1)"
    "opt_branch (doublers ch > 0) ch DOUBLER value1 c1 tr1
       (calculate_value (CH_next ch DOUBLER) c1) = Inr (value2, c2, tr2)"
    "opt_branch (mimics ch > 0 \<and> (saves ch > 0 \<or> csaves ch > 0)) ch MIMIC value2 c2 tr2
       (calculate_value (CH_next ch MIMIC) c2) = Inr (value3, c3, tr3)"
    "CH_chance ch LOOT = Inr p"
    "add_branch ch LOOT (CHValue_add value3 (loot_reward ch p)) tr3
       (calculate_value (CH_next ch LOOT) c3) = Inr (v, c5, tr)"
    "c' = c5(ch \<mapsto> v)"
  using assms(1) unfolding calc_prob [OF assms(2,3)]
  by (auto split: sum.splits prod.splits)

lemma add_branchE:
  assumes "add_branch ch t val tr rec = Inr (v', c', tr')"
  obtains p v tr1 where "CH_chance ch t = Inr p" "rec = Inr (v, c', tr1)"
    "v' = CHValue_add val (CHValue_rmul p v)" "tr' = tr @ CH_next ch t # tr1"
  using assms unfolding add_branch_def by (auto split: sum.splits prod.splits)

lemma add_branchI:
  "CH_chance ch t = Inr p \<Longrightarrow> rec = Inr (v, c1, tr1) \<Longrightarrow>
   add_branch ch t val tr rec = Inr (CHValue_add val (CHValue_rmul p v), c1, tr @ CH_next ch t # tr1)"
  by (simp add: add_branch_def)

lemma opt_branchE:
  assumes "opt_branch g ch t val c tr rec = Inr (v', c', tr')"
  obtains (taken) "g" "add_branch ch t val tr rec = Inr (v', c', tr')"
        | (skipped) "\<not> g" "v' = val" "c' = c" "tr' = tr"
  using assms unfolding opt_branch_def by (auto split: if_splits)

text \<open>Induction along the recursion: every call is on a state with one chest less.\<close>

lemma calc_induct [case_names step]:
  assumes "\<And>ch. (\<And>t. 0 < chests ch \<Longrightarrow> P (CH_next ch t)) \<Longrightarrow> P ch"
  shows "P ch"
proof (induction "nat \<lceil>chests ch\<rceil>" arbitrary: ch rule: less_induct)
  case less
  show ?case
  proof (rule assms)
    fix t assume "0 < chests ch"
    then have "0 < \<lceil>chests ch\<rceil>" by simp
    with CH_next_ceiling [of ch t] have "nat \<lceil>chests (CH_next ch t)\<rceil> < nat \<lceil>chests ch\<rceil>"
      by simp
    then show "P (CH_next ch t)" by (rule less)
  qed
qed

section \<open>The dictionary\<close>

text \<open>A call stores values only for states that have no more chests than its argument.\<close>

lemma calc_dom:
  "calculate_value ch c = Inr (v, c', tr) \<Longrightarrow> k \<in> dom c' \<Longrightarrow> k \<in> dom c \<or> chests k \<le> chests ch"
proof (induction ch arbitrary: c v c' tr rule: calc_induct)
  case (step ch)
  note IH = step.IH [OF CH_stop_chests]
  show ?case
  proof (cases "CH_stop ch c")
    case True
    with step.prems show ?thesis by (simp add: calc_stop)
  next
    case False
    note ns = this
    have lt: "chests (CH_next ch t) \<le> chests ch" for t by (simp add: chests_CH_next)
    have stepdom: "k \<in> dom cb \<Longrightarrow> k \<in> dom ca \<or> chests k \<le> chests ch"
      if "opt_branch g ch t val ca tra (calculate_value (CH_next ch t) ca) = Inr (vb, cb, trb)"
      for g t val ca tra vb cb trb
      using that
    proof (cases rule: opt_branchE)
      case taken
      from taken(2) obtain vv tt where "calculate_value (CH_next ch t) ca = Inr (vv, cb, tt)"
        by (auto elim: add_branchE)
      from IH [OF ns this] lt [of t] show "k \<in> dom cb \<Longrightarrow> k \<in> dom ca \<or> chests k \<le> chests ch"
        by auto
    next
      case skipped
      then show "k \<in> dom cb \<Longrightarrow> k \<in> dom ca \<or> chests k \<le> chests ch" by simp
    qed
    show ?thesis
    proof (cases "saver_first ch")
      case True
      with step.prems(1) ns obtain tr1 where "calculate_value (CH_next ch SAVER) c = Inr (v, c', tr1)"
        by (auto simp: calc_det split: sum.splits prod.splits)
      from IH [OF ns this step.prems(2)] lt [of SAVER] show ?thesis by auto
    next
      case False
      from step.prems(1) ns False obtain value1 c1 tr1 value2 c2 tr2 value3 c3 tr3 p c5 where
        b1: "opt_branch (savers ch > 0 \<and> \<not> ad ch) ch SAVER (CH_value ch c) c []
           (calculate_value (CH_next ch SAVER) c) = Inr (value1, c1, tr1)" and
        b2: "opt_branch (doublers ch > 0) ch DOUBLER value1 c1 tr1
           (calculate_value (CH_next ch DOUBLER) c1) = Inr (value2, c2, tr2)" and
        b3: "opt_branch (mimics ch > 0 \<and> (saves ch > 0 \<or> csaves ch > 0)) ch MIMIC value2 c2 tr2
           (calculate_value (CH_next ch MIMIC) c2) = Inr (value3, c3, tr3)" and
        b4: "add_branch ch LOOT (CHValue_add value3 (loot_reward ch p)) tr3
           (calculate_value (CH_next ch LOOT) c3) = Inr (v, c5, tr)" and
        c': "c' = c5(ch \<mapsto> v)"
        by (rule calc_probE)
      from b4 obtain vv tt where "calculate_value (CH_next ch LOOT) c3 = Inr (vv, c5, tt)"
        by (auto elim: add_branchE)
      from IH [OF ns this] lt [of LOOT] have d5: "k \<in> dom c5 \<Longrightarrow> k \<in> dom c3 \<or> chests k \<le> chests ch"
        by auto
      from step.prems(2) c' have "k = ch \<or> k \<in> dom c5" by auto
      with d5 stepdom [OF b3] stepdom [OF b2] stepdom [OF b1] show ?thesis by auto
    qed
  qed
qed

lemma savers_CH_next_SAVER: "savers (CH_next ch SAVER) = savers ch - 1"
  by (simp add: CH_next_def CH_copy_def CH_init_def Let_def)

text \<open>
  C1 (as amended).  When a call on \<open>s\<close> has returned, a second call on \<open>s\<close> with the dictionary
  the first one left returns the same value and leaves the dictionary as it is.  It calls
  \<^verbatim>\<open>next\<close> again only where the first call took the saver-first path, which returns
  without storing its state: then at most \<open>savers s\<close> transitions are repeated, and none
  when the first call stopped at once or took the weighted sum.
\<close>

theorem warm_cache_second_call:
  assumes "calculate_value s c = Inr (v, c1, tr1)"
  shows "\<exists>tr2. calculate_value s c1 = Inr (v, c1, tr2) \<and> length tr2 \<le> nat (savers s) \<and>
           (CH_stop s c \<or> \<not> saver_first s \<longrightarrow> tr2 = [])"
  using assms
proof (induction s arbitrary: c v c1 tr1 rule: calc_induct)
  case (step ch)
  note IH = step.IH [OF CH_stop_chests]
  show ?case
  proof (cases "CH_stop ch c")
    case True
    with step.prems show ?thesis by (auto simp: calc_stop)
  next
    case False
    note ns = this
    show ?thesis
    proof (cases "saver_first ch")
      case True
      with step.prems ns obtain tr' where
        first: "calculate_value (CH_next ch SAVER) c = Inr (v, c1, tr')"
        by (auto simp: calc_det split: sum.splits prod.splits)
      from IH [OF ns first] obtain tr2 where
        second: "calculate_value (CH_next ch SAVER) c1 = Inr (v, c1, tr2)" and
        len: "length tr2 \<le> nat (savers (CH_next ch SAVER))"
        by blast
      have "ch \<notin> dom c1"
      proof
        assume "ch \<in> dom c1"
        from calc_dom [OF first this] ns show False
          by (auto simp: CH_stop_def chests_CH_next)
      qed
      with ns have ns1: "\<not> CH_stop ch c1" by (simp add: CH_stop_def Let_def)
      have "0 < savers ch" using True by (simp add: saver_first_def)
      with len have "length (CH_next ch SAVER # tr2) \<le> nat (savers ch)"
        by (simp add: savers_CH_next_SAVER)
      moreover have "calculate_value ch c1 = Inr (v, c1, CH_next ch SAVER # tr2)"
        by (simp add: calc_det [OF ns1 True] second)
      ultimately show ?thesis using True ns by blast
    next
      case False
      from step.prems ns False obtain c5 where "c1 = c5(ch \<mapsto> v)"
        by (rule calc_probE)
      then have "CH_stop ch c1" "CH_value ch c1 = v"
        by (simp_all add: CH_stop_def CH_value_def Let_def)
      then show ?thesis by (simp add: calc_stop)
    qed
  qed
qed

theorem warm_cache_second_call_witness:
  "\<exists>v c1 tr1 tr2.
     calculate_value (CH_init 2 0 1 0 True 0 0 0 False False False) Map.empty = Inr (v, c1, tr1) \<and>
     calculate_value (CH_init 2 0 1 0 True 0 0 0 False False False) c1 = Inr (v, c1, tr2) \<and>
     length tr2 \<le> 1"
proof -
  have "case calculate_value (CH_init 2 0 1 0 True 0 0 0 False False False) Map.empty of
          Inl e \<Rightarrow> False | Inr r \<Rightarrow> True"
    by code_simp
  then obtain v c1 tr1 where
    first: "calculate_value (CH_init 2 0 1 0 True 0 0 0 False False False) Map.empty = Inr (v, c1, tr1)"
    by (cases "calculate_value (CH_init 2 0 1 0 True 0 0 0 False False False) Map.empty") auto
  from warm_cache_second_call [OF first] obtain tr2 where
    "calculate_value (CH_init 2 0 1 0 True 0 0 0 False False False) c1 = Inr (v, c1, tr2)"
    "length tr2 \<le> nat (savers (CH_init 2 0 1 0 True 0 0 0 False False False))"
    by blast
  moreover have "savers (CH_init 2 0 1 0 True 0 0 0 False False False) = 1"
    by (simp add: CH_init_def)
  ultimately show ?thesis using first by auto
qed

text \<open>
  C1 as stated fails: with skip priority, one saver and two chests the first call returns
  through the saver-first path, and the second call invokes \<^verbatim>\<open>next\<close> again for that state.
\<close>

theorem repeated_call_transition_counterexample:
  "(case calculate_value (CH_init 2 0 1 0 True 0 0 0 False False False) Map.empty of
      Inl e \<Rightarrow> False
    | Inr (v, c, tr) \<Rightarrow>
        (case calculate_value (CH_init 2 0 1 0 True 0 0 0 False False False) c of
           Inl e \<Rightarrow> False
         | Inr (v2, c2, tr2) \<Rightarrow>
             v2 = v \<and> tr2 = [CH_next (CH_init 2 0 1 0 True 0 0 0 False False False) SAVER]))"
  by code_simp

section \<open>The base case\<close>

text \<open>
  C2 (as amended).  With an empty dictionary a state with \<open>chests \<le> 0\<close> is answered at once,
  with no loot, no armory, and \<open>perfect = 1\<close> exactly when \<open>mimics \<ge> chests\<close> and
  \<open>chests \<ge> 0\<close>, that is when \<open>chests = 0\<close> and \<open>mimics \<ge> 0\<close>; a state with a negative number of
  chests gets \<open>perfect = 0\<close>.
\<close>

theorem base_case_value:
  assumes "chests s \<le> 0"
  shows "calculate_value s Map.empty =
           Inr (\<lparr> loot = 0,
                  perfect = (if mimics s \<ge> chests s \<and> chests s \<ge> 0 then 1 else 0),
                  armory = 0 \<rparr>, Map.empty, [])"
proof -
  have "CH_stop s Map.empty" using assms by (simp add: CH_stop_def Let_def)
  then show ?thesis by (simp add: calc_stop CH_value_def Let_def)
qed

theorem base_case_value_witness:
  "chests (CH_init 0 4 0 0 False 0 0 0 False False True) \<le> 0 \<and>
   calculate_value (CH_init 0 4 0 0 False 0 0 0 False False True) Map.empty =
     Inr (\<lparr> loot = 0, perfect = 1, armory = 0 \<rparr>, Map.empty, [])"
proof -
  have h: "chests (CH_init 0 4 0 0 False 0 0 0 False False True) \<le> 0"
    by (simp add: CH_init_def)
  show ?thesis using h base_case_value [OF h] by (simp add: CH_init_def)
qed

text \<open>
  C2 as stated fails below zero: with \<open>chests = -1\<close> and no mimics, \<open>mimics \<ge> chests\<close> holds and
  the value has \<open>perfect = 0\<close>.
\<close>

theorem negative_chests_counterexample:
  "chests (CH_init (-1) 0 0 0 False 0 0 0 False False True) \<le> 0 \<and>
   mimics (CH_init (-1) 0 0 0 False 0 0 0 False False True)
     \<ge> chests (CH_init (-1) 0 0 0 False 0 0 0 False False True) \<and>
   calculate_value (CH_init (-1) 0 0 0 False 0 0 0 False False True) Map.empty =
     Inr (\<lparr> loot = 0, perfect = 0, armory = 0 \<rparr>, Map.empty, [])"
  by (simp add: calc_stop CH_stop_def CH_value_def CH_init_def Let_def)

section \<open>The chances\<close>



section \<open>The states the solver recurses into\<close>

lemma CH_stop_empty: "CH_stop ch c \<longleftrightarrow> ch \<in> dom c \<or> CH_stop ch Map.empty"
  by (simp add: CH_stop_def Let_def)

lemma calc_trace:
  "calculate_value ch c = Inr (v, c', tr) \<Longrightarrow> \<forall>s' \<in> set tr. recurses ch s'"
proof (induction ch arbitrary: c v c' tr rule: calc_induct)
  case (step ch)
  note IH = step.IH [OF CH_stop_chests]
  show ?case
  proof (cases "CH_stop ch c")
    case True
    with step.prems show ?thesis by (auto simp: calc_stop)
  next
    case False
    then have ns: "\<not> CH_stop ch Map.empty" using CH_stop_empty [of ch c] by blast
    have sub: "\<forall>s' \<in> set (tra @ CH_next ch t # tt). recurses ch s'"
      if "calculate_value (CH_next ch t) ca = Inr (vv, cb, tt)" "branch_guard ch t"
         "\<forall>s' \<in> set tra. recurses ch s'"
      for t ca vv cb tt tra
      using IH [OF False that(1)] that(3) recurses.child [OF ns that(2)]
        recurses.below [OF ns that(2)]
      by auto
    have stepb: "\<forall>s' \<in> set trb. recurses ch s'"
      if "opt_branch g ch t val ca tra (calculate_value (CH_next ch t) ca) = Inr (vb, cb, trb)"
         "g \<Longrightarrow> branch_guard ch t" "\<forall>s' \<in> set tra. recurses ch s'"
      for g t val ca tra vb cb trb
      using that(1)
    proof (cases rule: opt_branchE)
      case taken
      from taken(2) obtain vv tt where
        "calculate_value (CH_next ch t) ca = Inr (vv, cb, tt)" "trb = tra @ CH_next ch t # tt"
        by (auto elim: add_branchE)
      with sub [OF this(1) that(2) that(3)] taken(1) show ?thesis by simp
    next
      case skipped
      with that(3) show ?thesis by simp
    qed
    show ?thesis
    proof (cases "saver_first ch")
      case True
      with step.prems False obtain tr1 where
        "calculate_value (CH_next ch SAVER) c = Inr (v, c', tr1)" "tr = CH_next ch SAVER # tr1"
        by (auto simp: calc_det split: sum.splits prod.splits)
      with sub [of SAVER c v c' tr1 "[]"] True show ?thesis by (simp add: branch_guard_def)
    next
      case nf: False
      from step.prems False nf obtain value1 c1 tr1 value2 c2 tr2 value3 c3 tr3 p c5 where
        b1: "opt_branch (savers ch > 0 \<and> \<not> ad ch) ch SAVER (CH_value ch c) c []
           (calculate_value (CH_next ch SAVER) c) = Inr (value1, c1, tr1)" and
        b2: "opt_branch (doublers ch > 0) ch DOUBLER value1 c1 tr1
           (calculate_value (CH_next ch DOUBLER) c1) = Inr (value2, c2, tr2)" and
        b3: "opt_branch (mimics ch > 0 \<and> (saves ch > 0 \<or> csaves ch > 0)) ch MIMIC value2 c2 tr2
           (calculate_value (CH_next ch MIMIC) c2) = Inr (value3, c3, tr3)" and
        b4: "add_branch ch LOOT (CHValue_add value3 (loot_reward ch p)) tr3
           (calculate_value (CH_next ch LOOT) c3) = Inr (v, c5, tr)"
        by (rule calc_probE)
      have t1: "\<forall>s' \<in> set tr1. recurses ch s'"
        by (rule stepb [OF b1]) (simp_all add: branch_guard_def)
      have t2: "\<forall>s' \<in> set tr2. recurses ch s'"
        by (rule stepb [OF b2 _ t1]) (simp add: branch_guard_def nf)
      have t3: "\<forall>s' \<in> set tr3. recurses ch s'"
        by (rule stepb [OF b3 _ t2]) (simp add: branch_guard_def nf)
      from b4 obtain vv tt where
        "calculate_value (CH_next ch LOOT) c3 = Inr (vv, c5, tt)" "tr = tr3 @ CH_next ch LOOT # tt"
        by (auto elim: add_branchE)
      with sub [OF this(1) _ t3] nf show ?thesis by (simp add: branch_guard_def)
    qed
  qed
qed

lemma CH_next_fields:
  "savers (CH_next ch t) = (if t = SAVER then savers ch - 1 else savers ch)"
  "doublers (CH_next ch t) = (if t = DOUBLER then doublers ch - 1 else doublers ch)"
  "mimics (CH_next ch t) = (if t = MIMIC then mimics ch - 1 else mimics ch)"
  "csaves (CH_next ch t) = (if csaves ch > 0 then csaves ch - 1 else csaves ch)"
  "saves (CH_next ch t) =
     (if t = SAVER then (if \<not> dd ch \<and> doubles ch > 0 then saves ch + 2 else saves ch + 1)
      else if t = MIMIC \<and> csaves ch \<le> 0 then saves ch - 1 else saves ch)"
  "ad (CH_next ch t) = ad ch"
  "CH.armory (CH_next ch t) = CH.armory ch"
  by (cases t; simp add: CH_next_def CH_copy_def CH_init_def Let_def)+

lemma counts_ok_next:
  "counts_ok ch \<Longrightarrow> branch_guard ch t \<Longrightarrow> counts_ok (CH_next ch t)"
  by (cases t) (auto simp: counts_ok_def branch_guard_def saver_first_def CH_next_fields)

lemma recurses_counts_ok: "recurses s s' \<Longrightarrow> counts_ok s \<Longrightarrow> counts_ok s'"
  by (induction rule: recurses.induct) (auto intro: counts_ok_next)

lemma nonnegative_counts_ok: "nonnegative ch \<Longrightarrow> counts_ok ch"
  by (simp add: nonnegative_def counts_ok_def)

section \<open>Division by zero\<close>

lemma denominators_positive:
  assumes "counts_ok ch" "\<not> CH_stop ch Map.empty" "\<not> saver_first ch"
  shows "0 < chests ch \<and> 0 < chests ch - (if ad ch then of_int (savers ch) else 0)"
  using assms
  by (auto simp: counts_ok_def CH_stop_def saver_first_def Let_def split: if_splits)

lemma chance_defined:
  assumes "counts_ok ch" "\<not> CH_stop ch Map.empty" "\<not> saver_first ch"
  shows "\<exists>p. CH_chance ch t = Inr p"
  using denominators_positive [OF assms]
  by (cases t)
     (auto simp: CH_chance_def chance_loot_def chance_mimic_def chance_doubler_def
        decimal_div_def Let_def)

text \<open>
  A call on a state with acceptable counters raises no exception, and it refines the value
  without dictionary.
\<close>

lemma CH_value_fresh: "ch \<notin> dom c \<Longrightarrow> CH_value ch c = CH_value ch Map.empty"
  by (auto simp: CH_value_def Let_def split: option.splits)

lemma opt_branch_sound:
  assumes chance: "g \<Longrightarrow> \<exists>p. CH_chance ch t = Inr p"
      and rec: "g \<Longrightarrow> \<exists>v c' tr. calculate_value (CH_next ch t) ca = Inr (v, c', tr) \<and>
                                call_ok (CH_next ch t) ca v c' tr"
  shows "\<exists>p v cb trb.
           opt_branch g ch t val ca tra (calculate_value (CH_next ch t) ca) =
             Inr ((if g then CHValue_add val (CHValue_rmul p v) else val), cb, trb) \<and>
           (g \<longrightarrow> CH_chance ch t = Inr p) \<and>
           (cache_sound ca \<longrightarrow> (g \<longrightarrow> expected (CH_next ch t) v) \<and> cache_sound cb)"
proof (cases g)
  case False
  then have "opt_branch g ch t val ca tra (calculate_value (CH_next ch t) ca) = Inr (val, ca, tra)"
    by (simp add: opt_branch_def)
  with False show ?thesis by auto
next
  case True
  from chance [OF True] obtain p where p: "CH_chance ch t = Inr p" by blast
  from rec [OF True] obtain v c' tr where
    r: "calculate_value (CH_next ch t) ca = Inr (v, c', tr)" and
    ok: "call_ok (CH_next ch t) ca v c' tr"
    by blast
  have "opt_branch g ch t val ca tra (calculate_value (CH_next ch t) ca) =
          Inr (CHValue_add val (CHValue_rmul p v), c', tra @ CH_next ch t # tr)"
    using True by (simp add: opt_branch_def add_branchI [OF p r])
  then show ?thesis using True p ok by (auto simp: call_ok_def)
qed

lemma calc_sound:
  assumes "counts_ok s"
  shows "\<exists>v c' tr. calculate_value s c = Inr (v, c', tr) \<and> call_ok s c v c' tr"
  using assms
proof (induction s arbitrary: c rule: calc_induct)
  case (step ch)
  show ?case
  proof (cases "CH_stop ch c")
    case True
    have "expected ch (CH_value ch c)" if "cache_sound c"
    proof (cases "ch \<in> dom c")
      case True
      then obtain w where "c ch = Some w" by blast
      with that show ?thesis by (simp add: cache_sound_def CH_value_def Let_def)
    next
      case False
      with True have "CH_stop ch Map.empty" using CH_stop_empty [of ch c] by blast
      then show ?thesis using expected.stopped [of ch] CH_value_fresh [OF False] by simp
    qed
    with True show ?thesis by (simp add: calc_stop call_ok_def)
  next
    case False
    then have fresh: "ch \<notin> dom c" and ns: "\<not> CH_stop ch Map.empty"
      using CH_stop_empty [of ch c] by blast+
    have pos: "0 < chests ch" using ns by (rule CH_stop_chests)
    have IH: "\<exists>v c' tr. calculate_value (CH_next ch t) ca = Inr (v, c', tr) \<and>
                call_ok (CH_next ch t) ca v c' tr" if "branch_guard ch t" for t ca
      using step.IH [OF pos counts_ok_next [OF step.prems that]] .
    show ?thesis
    proof (cases "saver_first ch")
      case True
      then have g: "branch_guard ch SAVER" by (simp add: branch_guard_def)
      from IH [OF g] obtain v c' tr where
        r: "calculate_value (CH_next ch SAVER) c = Inr (v, c', tr)" and
        ok: "call_ok (CH_next ch SAVER) c v c' tr"
        by blast
      have "calculate_value ch c = Inr (v, c', CH_next ch SAVER # tr)"
        by (simp add: calc_det [OF False True] r)
      moreover have "call_ok ch c v c' (CH_next ch SAVER # tr)"
        using ok expected.first [OF ns True] by (auto simp: call_ok_def)
      ultimately show ?thesis by blast
    next
      case nf: False
      note ch = chance_defined [OF step.prems ns nf]
      let ?g1 = "savers ch > 0 \<and> \<not> ad ch"
      let ?g2 = "doublers ch > 0"
      let ?g3 = "mimics ch > 0 \<and> (saves ch > 0 \<or> csaves ch > 0)"
      have g1: "branch_guard ch SAVER" if ?g1 using that by (simp add: branch_guard_def)
      have g2: "branch_guard ch DOUBLER" if ?g2 using that nf by (simp add: branch_guard_def)
      have g3: "branch_guard ch MIMIC" if ?g3 using that nf by (simp add: branch_guard_def)
      have g4: "branch_guard ch LOOT" using nf by (simp add: branch_guard_def)
      define value0 where "value0 = CH_value ch c"
      from opt_branch_sound [where g = ?g1 and t = SAVER and val = value0 and ca = c and tra = "[]",
          OF ch IH [OF g1]]
      obtain p1 v1 c1 tr1 where
        b1: "opt_branch ?g1 ch SAVER value0 c [] (calculate_value (CH_next ch SAVER) c) =
               Inr ((if ?g1 then CHValue_add value0 (CHValue_rmul p1 v1) else value0), c1, tr1)" and
        p1: "?g1 \<longrightarrow> CH_chance ch SAVER = Inr p1" and
        s1: "cache_sound c \<longrightarrow> (?g1 \<longrightarrow> expected (CH_next ch SAVER) v1) \<and> cache_sound c1"
        by blast
      define value1 where
        "value1 = (if ?g1 then CHValue_add value0 (CHValue_rmul p1 v1) else value0)"
      from opt_branch_sound [where g = ?g2 and t = DOUBLER and val = value1 and ca = c1 and tra = tr1,
          OF ch IH [OF g2]]
      obtain p2 v2 c2 tr2 where
        b2: "opt_branch ?g2 ch DOUBLER value1 c1 tr1 (calculate_value (CH_next ch DOUBLER) c1) =
               Inr ((if ?g2 then CHValue_add value1 (CHValue_rmul p2 v2) else value1), c2, tr2)" and
        p2: "?g2 \<longrightarrow> CH_chance ch DOUBLER = Inr p2" and
        s2: "cache_sound c1 \<longrightarrow> (?g2 \<longrightarrow> expected (CH_next ch DOUBLER) v2) \<and> cache_sound c2"
        by blast
      define value2 where
        "value2 = (if ?g2 then CHValue_add value1 (CHValue_rmul p2 v2) else value1)"
      from opt_branch_sound [where g = ?g3 and t = MIMIC and val = value2 and ca = c2 and tra = tr2,
          OF ch IH [OF g3]]
      obtain p3 v3 c3 tr3 where
        b3: "opt_branch ?g3 ch MIMIC value2 c2 tr2 (calculate_value (CH_next ch MIMIC) c2) =
               Inr ((if ?g3 then CHValue_add value2 (CHValue_rmul p3 v3) else value2), c3, tr3)" and
        p3: "?g3 \<longrightarrow> CH_chance ch MIMIC = Inr p3" and
        s3: "cache_sound c2 \<longrightarrow> (?g3 \<longrightarrow> expected (CH_next ch MIMIC) v3) \<and> cache_sound c3"
        by blast
      define value3 where
        "value3 = (if ?g3 then CHValue_add value2 (CHValue_rmul p3 v3) else value2)"
      from ch obtain p4 where p4: "CH_chance ch LOOT = Inr p4" by blast
      from IH [OF g4] obtain v4 c4 tr4 where
        r4: "calculate_value (CH_next ch LOOT) c3 = Inr (v4, c4, tr4)" and
        ok4: "call_ok (CH_next ch LOOT) c3 v4 c4 tr4"
        by blast
      define value5 where
        "value5 = CHValue_add (CHValue_add value3 (loot_reward ch p4)) (CHValue_rmul p4 v4)"
      have res: "calculate_value ch c = Inr (value5, c4(ch \<mapsto> value5), tr3 @ CH_next ch LOOT # tr4)"
        by (simp only: calc_prob [OF False nf] value0_def [symmetric]
              b1 [folded value1_def] b2 [folded value2_def] b3 [folded value3_def] p4
              add_branchI [OF p4 r4] value5_def [symmetric] sum.case prod.case)
      have v5: "value5 = weighted_sum ch p1 v1 p2 v2 p3 v3 p4 v4"
        by (simp only: weighted_sum_def value5_def value3_def value2_def value1_def value0_def
              Let_def CH_value_fresh [OF fresh])
      have snd: "expected ch value5 \<and> cache_sound (c4(ch \<mapsto> value5))" if cs: "cache_sound c"
      proof -
        from cs s1 have e1: "?g1 \<longrightarrow> expected (CH_next ch SAVER) v1" and cs1: "cache_sound c1"
          by blast+
        from cs1 s2 have e2: "?g2 \<longrightarrow> expected (CH_next ch DOUBLER) v2" and cs2: "cache_sound c2"
          by blast+
        from cs2 s3 have e3: "?g3 \<longrightarrow> expected (CH_next ch MIMIC) v3" and cs3: "cache_sound c3"
          by blast+
        from cs3 ok4 have e4: "expected (CH_next ch LOOT) v4" and cs4: "cache_sound c4"
          by (simp_all add: call_ok_def)
        have "expected ch (weighted_sum ch p1 v1 p2 v2 p3 v3 p4 v4)"
          using ns nf _ _ _ p4 e4
        proof (rule expected.weighted)
          show "?g1 \<longrightarrow> CH_chance ch SAVER = Inr p1 \<and> expected (CH_next ch SAVER) v1"
            using p1 e1 by blast
          show "?g2 \<longrightarrow> CH_chance ch DOUBLER = Inr p2 \<and> expected (CH_next ch DOUBLER) v2"
            using p2 e2 by blast
          show "?g3 \<longrightarrow> CH_chance ch MIMIC = Inr p3 \<and> expected (CH_next ch MIMIC) v3"
            using p3 e3 by blast
        qed
        then have "expected ch value5" by (simp add: v5)
        then show ?thesis using cs4 by (simp add: cache_sound_def)
      qed
      from res snd show ?thesis by (auto simp: call_ok_def)
    qed
  qed
qed

text \<open>
  C4.  From an initial state with non-negative fields and
  \<open>chests \<ge> mimics + savers + doublers\<close>, and from any dictionary, the solver returns a value:
  no division raises.  In every state it is called on where a chance can be evaluated (the
  state does not stop by the default rule and the saver is not opened at once), \<open>chests\<close>
  and \<open>chests - (savers if ad else 0)\<close> are positive.
\<close>

theorem division_safety:
  assumes "nonnegative s0"
      and "chests s0 \<ge> mimics s0 + of_int (savers s0) + of_int (doublers s0)"
  shows "\<exists>v c' tr.
           calculate_value s0 c = Inr (v, c', tr) \<and>
           (\<forall>s \<in> set (s0 # tr).
              \<not> CH_stop s Map.empty \<and> \<not> saver_first s \<longrightarrow>
              0 < chests s \<and> 0 < chests s - (if ad s then of_int (savers s) else 0))"
proof -
  have ok: "counts_ok s0" using assms(1) by (rule nonnegative_counts_ok)
  from calc_sound [OF ok] obtain v c' tr where r: "calculate_value s0 c = Inr (v, c', tr)"
    by blast
  have "counts_ok s" if "s \<in> set (s0 # tr)" for s
    using that ok calc_trace [OF r] recurses_counts_ok by auto
  then have "\<forall>s \<in> set (s0 # tr).
               \<not> CH_stop s Map.empty \<and> \<not> saver_first s \<longrightarrow>
               0 < chests s \<and> 0 < chests s - (if ad s then of_int (savers s) else 0)"
    using denominators_positive by blast
  with r show ?thesis by blast
qed

theorem division_safety_witness:
  "nonnegative (CH_init 30 4 1 0 True 2 1 0 False True True) \<and>
   (\<exists>v c' tr. calculate_value (CH_init 30 4 1 0 True 2 1 0 False True True) Map.empty =
      Inr (v, c', tr))"
proof -
  have h1: "nonnegative (CH_init 30 4 1 0 True 2 1 0 False True True)"
    by (simp add: nonnegative_def CH_init_def)
  have h2: "chests (CH_init 30 4 1 0 True 2 1 0 False True True) \<ge>
            mimics (CH_init 30 4 1 0 True 2 1 0 False True True) +
            of_int (savers (CH_init 30 4 1 0 True 2 1 0 False True True)) +
            of_int (doublers (CH_init 30 4 1 0 True 2 1 0 False True True))"
    by (simp add: CH_init_def)
  from division_safety [OF h1 h2, of Map.empty] h1 show ?thesis by blast
qed

section \<open>Non-negative counters\<close>

lemma whole_pred: "(x::rat) \<in> \<int> \<Longrightarrow> 0 < x \<Longrightarrow> 0 \<le> x - 1 \<and> x - 1 \<in> \<int>"
proof -
  assume "x \<in> \<int>" "0 < x"
  then obtain z :: int where z: "x = of_int z" by (auto elim: Ints_cases)
  with \<open>0 < x\<close> have "0 < z" by simp
  then have "0 \<le> z - 1" by simp
  then have "(0::rat) \<le> of_int (z - 1)" by (simp only: of_int_0_le_iff)
  then show ?thesis using z by simp
qed

lemma counts_whole_next:
  assumes "counts_whole ch" "\<not> CH_stop ch Map.empty" "branch_guard ch t"
  shows "counts_whole (CH_next ch t)"
proof -
  have "chests ch \<in> \<int>" "mimics ch \<in> \<int>"
    using assms(1) by (simp_all add: counts_whole_def)
  note whole = this
  have c: "0 \<le> chests ch - 1 \<and> chests ch - 1 \<in> \<int>"
    using whole(1) CH_stop_chests [OF assms(2)] by (rule whole_pred)
  have m: "0 \<le> mimics ch - 1 \<and> mimics ch - 1 \<in> \<int>" if "0 < mimics ch"
    using whole(2) that by (rule whole_pred)
  show ?thesis
    using assms(1,3) c m
    by (cases t)
       (auto simp: counts_whole_def branch_guard_def saver_first_def CH_next_fields chests_CH_next)
qed

lemma recurses_counts_whole: "recurses s s' \<Longrightarrow> counts_whole s \<Longrightarrow> counts_whole s'"
  by (induction rule: recurses.induct) (auto intro: counts_whole_next)

text \<open>
  C9 (as amended).  From an initial state with non-negative fields in which \<open>chests\<close> and
  \<open>mimics\<close> are whole numbers, and from any dictionary, every state the solver recurses into
  has non-negative \<open>saves\<close>, \<open>csaves\<close>, \<open>mimics\<close>, \<open>savers\<close>, \<open>doublers\<close> and \<open>chests\<close>: each
  counter is decremented only under a guard that finds it positive.
\<close>

theorem explored_states_nonnegative:
  assumes "nonnegative s0" and "chests s0 \<in> \<int>" and "mimics s0 \<in> \<int>"
  shows "\<exists>v c' tr.
           calculate_value s0 c = Inr (v, c', tr) \<and>
           (\<forall>s \<in> set tr.
              0 \<le> saves s \<and> 0 \<le> csaves s \<and> 0 \<le> mimics s \<and> 0 \<le> savers s \<and>
              0 \<le> doublers s \<and> 0 \<le> chests s)"
proof -
  have w: "counts_whole s0" using assms by (simp add: nonnegative_def counts_whole_def)
  from calc_sound [OF nonnegative_counts_ok [OF assms(1)]] obtain v c' tr where
    r: "calculate_value s0 c = Inr (v, c', tr)"
    by blast
  have "counts_whole s" if "s \<in> set tr" for s
    using that w calc_trace [OF r] recurses_counts_whole by blast
  then have "\<forall>s \<in> set tr.
      0 \<le> saves s \<and> 0 \<le> csaves s \<and> 0 \<le> mimics s \<and> 0 \<le> savers s \<and>
      0 \<le> doublers s \<and> 0 \<le> chests s"
    by (simp add: counts_whole_def)
  with r show ?thesis by blast
qed

theorem explored_states_nonnegative_witness:
  "nonnegative (CH_init 30 4 1 0 True 2 1 0 False True True) \<and>
   (\<exists>v c' tr.
      calculate_value (CH_init 30 4 1 0 True 2 1 0 False True True) Map.empty = Inr (v, c', tr) \<and>
      (\<forall>s \<in> set tr.
         0 \<le> saves s \<and> 0 \<le> csaves s \<and> 0 \<le> mimics s \<and> 0 \<le> savers s \<and>
         0 \<le> doublers s \<and> 0 \<le> chests s))"
proof -
  have h1: "nonnegative (CH_init 30 4 1 0 True 2 1 0 False True True)"
    by (simp add: nonnegative_def CH_init_def)
  have h2: "chests (CH_init 30 4 1 0 True 2 1 0 False True True) \<in> \<int>"
    by (simp add: CH_init_def)
  have h3: "mimics (CH_init 30 4 1 0 True 2 1 0 False True True) \<in> \<int>"
    by (simp add: CH_init_def)
  from explored_states_nonnegative [OF h1 h2 h3, of Map.empty] h1 show ?thesis by blast
qed

text \<open>
  C9 as stated fails for a fractional decimal: from \<open>chests = 1/2\<close>, a state with non-negative
  fields and \<open>chests \<ge> mimics + savers + doublers\<close>, the solver recurses into a state with
  \<open>chests = -1/2\<close>.
\<close>

theorem fractional_chests_counterexample:
  "nonnegative (CH_init (1/2) 0 0 0 False 0 0 0 False False False) \<and>
   chests (CH_init (1/2) 0 0 0 False 0 0 0 False False False) \<ge>
     mimics (CH_init (1/2) 0 0 0 False 0 0 0 False False False) +
     of_int (savers (CH_init (1/2) 0 0 0 False 0 0 0 False False False)) +
     of_int (doublers (CH_init (1/2) 0 0 0 False 0 0 0 False False False)) \<and>
   (case calculate_value (CH_init (1/2) 0 0 0 False 0 0 0 False False False) Map.empty of
      Inl e \<Rightarrow> False
    | Inr (v, c, tr) \<Rightarrow>
        tr = [CH_next (CH_init (1/2) 0 0 0 False 0 0 0 False False False) LOOT] \<and>
        chests (CH_next (CH_init (1/2) 0 0 0 False 0 0 0 False False False) LOOT) = - 1/2)"
  by code_simp

section \<open>Termination\<close>

lemma recurses_depth:
  "recurses s s' \<Longrightarrow> \<exists>k::nat. 0 < k \<and> chests s' = chests s - of_nat k \<and> - 1 < chests s'"
proof (induction rule: recurses.induct)
  case (child s t)
  have "chests (CH_next s t) = chests s - of_nat 1" by (simp add: chests_CH_next)
  moreover have "- 1 < chests (CH_next s t)"
    using CH_stop_chests [OF child(1)] by (simp add: chests_CH_next)
  ultimately show ?case by blast
next
  case (below s t s')
  then obtain k :: nat where k: "0 < k" "chests s' = chests (CH_next s t) - of_nat k" "- 1 < chests s'"
    by blast
  then have "chests s' = chests s - of_nat (Suc k)" by (simp add: chests_CH_next)
  with k(3) show ?case by blast
qed

lemma depth_bound:
  assumes "chests s' = chests s - of_nat k" "- 1 < chests s'"
  shows "k \<le> nat \<lceil>chests s\<rceil>"
proof -
  have "of_int (int k - 1) < chests s" using assms by simp
  then have "int k - 1 < \<lceil>chests s\<rceil>" by (simp only: less_ceiling_iff)
  then show ?thesis by simp
qed

text \<open>The decimal context: rounding is the identity on whole numbers below \<open>10\<^sup>2\<^sup>8\<close>.\<close>

lemma round_half_even_of_int: "round_half_even (of_int z) = z"
  by (simp add: round_half_even_def)

lemma digits_above_le: "y < 10 ^ Suc k \<Longrightarrow> digits_above n y \<le> k"
proof (induction n arbitrary: y k)
  case 0
  then show ?case by simp
next
  case (Suc n)
  show ?case
  proof (cases "y < 10")
    case True
    then show ?thesis by simp
  next
    case False
    then obtain j where k: "k = Suc j" using Suc.prems by (cases k) auto
    from Suc.prems have "y / 10 < 10 ^ Suc j" by (simp add: k)
    from Suc.IH [OF this] False show ?thesis by (simp add: k)
  qed
qed

lemma digits_above_spec:
  "1 \<le> y \<Longrightarrow> y < of_nat n + 1 \<Longrightarrow>
   10 ^ digits_above n y \<le> y \<and> y < 10 ^ Suc (digits_above n y)"
proof (induction n arbitrary: y)
  case 0
  then show ?case by simp
next
  case (Suc n)
  show ?case
  proof (cases "y < 10")
    case True
    with Suc.prems show ?thesis by simp
  next
    case False
    then have "1 \<le> y / 10" by simp
    moreover have "y / 10 < of_nat n + 1" using Suc.prems(2) False by simp
    ultimately have "10 ^ digits_above n (y / 10) \<le> y / 10 \<and>
                     y / 10 < 10 ^ Suc (digits_above n (y / 10))"
      by (rule Suc.IH)
    with False show ?thesis by simp
  qed
qed

lemma decimal_round_whole:
  assumes "x \<in> \<int>" "\<bar>x\<bar> < 10 ^ 28"
  shows "decimal_round x = x"
proof (cases "x = 0")
  case True
  then show ?thesis by (simp add: decimal_round_def)
next
  case False
  from assms(1) obtain z :: int where z: "x = of_int z" by (auto elim: Ints_cases)
  with False have "z \<noteq> 0" by auto
  then have "1 \<le> \<bar>z\<bar>" by simp
  then have "(1::rat) \<le> of_int \<bar>z\<bar>" by (simp only: of_int_1_le_iff)
  then have one: "1 \<le> \<bar>x\<bar>" by (simp add: z)
  define d where "d = digits_above (nat \<lfloor>\<bar>x\<bar>\<rfloor>) \<bar>x\<bar>"
  have "\<bar>x\<bar> < 10 ^ Suc 27" using assms(2) by simp
  then have d: "d \<le> 27" unfolding d_def by (rule digits_above_le)
  have adj: "adjusted x = int d" using one by (simp add: adjusted_def d_def Let_def)
  define m where "m = 27 - d"
  have q: "pow10 (adjusted x - 27) = 1 / 10 ^ m"
  proof (cases "d = 27")
    case True
    then show ?thesis by (simp add: pow10_def adj m_def)
  next
    case False
    with d have "d < 27" by simp
    then have "nat (27 - int d) = 27 - d" by simp
    with \<open>d < 27\<close> show ?thesis by (simp add: pow10_def adj m_def)
  qed
  have "x / (1 / 10 ^ m) = of_int (z * 10 ^ m)" by (simp add: z)
  then have r: "round_half_even (x / (1 / 10 ^ m)) = z * 10 ^ m"
    by (simp only: round_half_even_of_int)
  have "decimal_round x = of_int (round_half_even (x / (1 / 10 ^ m))) * (1 / 10 ^ m)"
    using False by (simp only: decimal_round_def q Let_def if_False)
  also have "\<dots> = of_int (z * 10 ^ m) * (1 / 10 ^ m)" by (simp only: r)
  also have "\<dots> = x" by (simp add: z)
  finally show ?thesis .
qed

lemma decimal_sub_whole: "whole_count x \<Longrightarrow> decimal_sub x 1 = x - 1"
proof -
  assume w: "whole_count x"
  then have "x - 1 \<in> \<int>" by (simp add: whole_count_def)
  moreover have "\<bar>x - 1\<bar> < 10 ^ 28" using w by (simp add: whole_count_def abs_less_iff)
  ultimately show ?thesis by (simp add: decimal_sub_def decimal_round_whole)
qed

lemma CH_next_decimal_whole:
  assumes "whole_count (chests s)" "whole_count (mimics s)"
  shows "CH_next_decimal s t = CH_next s t"
proof -
  have "chests (CH_copy s) = chests s" "mimics (CH_copy s) = mimics s"
    by (simp_all add: CH_copy_def CH_init_def Let_def)
  then show ?thesis
    by (cases t)
       (simp_all add: CH_next_decimal_def CH_next_def decimal_sub_whole [OF assms(1)]
          decimal_sub_whole [OF assms(2)] Let_def)
qed

lemma whole_count_pred: "whole_count x \<Longrightarrow> 0 < x \<Longrightarrow> whole_count (x - 1)"
  using whole_pred [of x] by (simp add: whole_count_def)

lemma whole_count_next:
  assumes "whole_count (chests s)" "whole_count (mimics s)"
    "\<not> CH_stop s Map.empty" "branch_guard s t"
  shows "whole_count (chests (CH_next s t)) \<and> whole_count (mimics (CH_next s t))"
proof -
  have "whole_count (chests s - 1)"
    using assms(1) CH_stop_chests [OF assms(3)] by (rule whole_count_pred)
  moreover have "whole_count (mimics s - 1)" if "0 < mimics s"
    using assms(2) that by (rule whole_count_pred)
  ultimately show ?thesis
    using assms(2,4) by (cases t) (auto simp: chests_CH_next CH_next_fields branch_guard_def)
qed

lemma recurses_whole_count:
  "recurses s s' \<Longrightarrow> whole_count (chests s) \<Longrightarrow> whole_count (mimics s) \<Longrightarrow>
   whole_count (chests s') \<and> whole_count (mimics s')"
proof (induction rule: recurses.induct)
  case (child s t)
  then show ?case by (simp add: whole_count_next)
next
  case (below s t s')
  from whole_count_next [OF below.prems below.hyps(1,2)] below.IH show ?case by blast
qed

lemma adjusted_above:
  assumes "10 ^ k \<le> \<bar>x\<bar>" "\<bar>x\<bar> < 10 ^ Suc k"
  shows "adjusted x = int k"
proof -
  define y where "y = \<bar>x\<bar>"
  define d where "d = digits_above (nat \<lfloor>y\<rfloor>) y"
  have "(1::rat) \<le> 10 ^ k" by simp
  then have one: "1 \<le> y" using assms(1) unfolding y_def by (rule order_trans)
  have "y < of_int \<lfloor>y\<rfloor> + 1" by linarith
  moreover have "0 \<le> \<lfloor>y\<rfloor>" using one by simp
  ultimately have "y < of_nat (nat \<lfloor>y\<rfloor>) + 1" by simp
  from digits_above_spec [OF one this] have lo: "10 ^ d \<le> y" and hi: "y < 10 ^ Suc d"
    by (simp_all add: d_def)
  have "d \<le> k" unfolding d_def using assms(2) [folded y_def] by (rule digits_above_le)
  moreover have "k \<le> d"
  proof (rule ccontr)
    assume "\<not> k \<le> d"
    then have "Suc d \<le> k" by simp
    then have "(10::rat) ^ Suc d \<le> 10 ^ k" by (intro power_increasing) simp_all
    with hi assms(1) show False by (simp add: y_def)
  qed
  ultimately have "d = k" by simp
  with one show ?thesis by (simp add: adjusted_def Let_def y_def [symmetric] d_def)
qed

lemma decimal_sub_29: "decimal_sub (10 ^ 29) 1 = 10 ^ 29"
proof -
  have a: "adjusted (10 ^ 29 - 1) = 28"
    using adjusted_above [of 28 "10 ^ 29 - 1"] by simp
  have f: "\<lfloor>((10::rat) ^ 29 - 1) / 10\<rfloor> = 10 ^ 28 - 1"
    by (rule floor_unique) simp_all
  have r: "round_half_even ((10 ^ 29 - 1) / 10) = 10 ^ 28"
    unfolding round_half_even_def Let_def f by simp
  have p: "pow10 (28 - 27) = 10" by (simp add: pow10_def)
  have "decimal_round (10 ^ 29 - 1) =
          of_int (round_half_even ((10 ^ 29 - 1) / pow10 (28 - 27))) * pow10 (28 - 27)"
    unfolding decimal_round_def Let_def a by simp
  also have "\<dots> = of_int (10 ^ 28) * 10" by (simp only: p r)
  also have "\<dots> = 10 ^ 29" by simp
  finally show ?thesis by (simp only: decimal_sub_def)
qed

lemma chance_loot_plain:
  "mimics s = 0 \<Longrightarrow> savers s = 0 \<Longrightarrow> doublers s = 0 \<Longrightarrow> chests s \<noteq> 0 \<Longrightarrow>
   CH_chance s LOOT = Inr 1"
  by (simp add: CH_chance_def chance_loot_def decimal_div_def Let_def)

lemma decimal_sub_29_numeral:
  "decimal_sub 100000000000000000000000000000 1 = 100000000000000000000000000000"
  using decimal_sub_29 by simp

text \<open>
  C5 (as amended).  On a state whose \<open>chests\<close> and \<open>mimics\<close> are whole numbers from 0 to
  \<open>10\<^sup>2\<^sup>8\<close> the transition of the program, with the subtractions of the decimal context, is
  the exact one: it takes exactly one chest.  A state with \<open>chests \<le> 0\<close> stops, and a call on
  a state that does not stop recurses on states of a smaller measure \<open>nat \<lceil>chests\<rceil>\<close>, the
  measure with which \<open>calculate_value\<close> was shown to terminate.  Every state the solver
  recurses into lies \<open>k\<close> transitions below the initial one, with \<open>k\<close> at most the initial
  number of chests, and is again a state on which the two transitions agree: the run of the
  model is the run of the program.
\<close>

theorem solver_terminates_whole:
  assumes "whole_count (chests s)" and "whole_count (mimics s)"
  shows "CH_next_decimal s t = CH_next s t \<and>
         chests (CH_next_decimal s t) = chests s - 1 \<and>
         (chests s \<le> 0 \<longrightarrow> CH_stop s solved) \<and>
         (\<not> CH_stop s solved \<longrightarrow> nat \<lceil>chests (CH_next_decimal s t)\<rceil> < nat \<lceil>chests s\<rceil>) \<and>
         (\<forall>v c' tr. calculate_value s solved = Inr (v, c', tr) \<longrightarrow>
            (\<forall>s' \<in> set tr.
               (\<exists>k. 0 < k \<and> k \<le> nat \<lceil>chests s\<rceil> \<and> chests s' = chests s - of_nat k) \<and>
               (\<forall>t'. CH_next_decimal s' t' = CH_next s' t')))"
proof (intro conjI allI impI ballI)
  show eq: "CH_next_decimal s t = CH_next s t" using assms by (rule CH_next_decimal_whole)
  show "chests (CH_next_decimal s t) = chests s - 1" by (simp add: eq chests_CH_next)
  show "CH_stop s solved" if "chests s \<le> 0" using that by (simp add: CH_stop_def Let_def)
  show "nat \<lceil>chests (CH_next_decimal s t)\<rceil> < nat \<lceil>chests s\<rceil>" if "\<not> CH_stop s solved"
  proof -
    have "0 < \<lceil>chests s\<rceil>" using CH_stop_chests [OF that] by simp
    with CH_next_ceiling [of s t] show ?thesis by (simp add: eq)
  qed
  show "\<exists>k. 0 < k \<and> k \<le> nat \<lceil>chests s\<rceil> \<and> chests s' = chests s - of_nat k"
    if "calculate_value s solved = Inr (v, c', tr)" "s' \<in> set tr" for v c' tr s'
  proof -
    from calc_trace [OF that(1)] that(2) have "recurses s s'" by blast
    from recurses_depth [OF this] obtain k :: nat where
      k: "0 < k" "chests s' = chests s - of_nat k" "- 1 < chests s'"
      by blast
    from depth_bound [OF k(2,3)] k show ?thesis by blast
  qed
  show "CH_next_decimal s' t' = CH_next s' t'"
    if "calculate_value s solved = Inr (v, c', tr)" "s' \<in> set tr" for v c' tr s' t'
  proof -
    from calc_trace [OF that(1)] that(2) have "recurses s s'" by blast
    from recurses_whole_count [OF this assms] show ?thesis
      by (simp add: CH_next_decimal_whole)
  qed
qed

theorem solver_terminates_whole_witness:
  "CH_next_decimal (CH_init 2 0 0 0 False 0 0 0 False False False) LOOT =
     CH_next (CH_init 2 0 0 0 False 0 0 0 False False False) LOOT \<and>
   chests (CH_next_decimal (CH_init 2 0 0 0 False 0 0 0 False False False) LOOT) = 1 \<and>
   nat \<lceil>chests (CH_next_decimal (CH_init 2 0 0 0 False 0 0 0 False False False) LOOT)\<rceil> < 2 \<and>
   (\<exists>v c' tr.
      calculate_value (CH_init 2 0 0 0 False 0 0 0 False False False) Map.empty = Inr (v, c', tr) \<and>
      (\<forall>s' \<in> set tr.
         (\<exists>k. 0 < k \<and> k \<le> 2 \<and> chests s' = 2 - of_nat k) \<and>
         (\<forall>t'. CH_next_decimal s' t' = CH_next s' t')))"
proof -
  let ?S = "CH_init 2 0 0 0 False 0 0 0 False False False"
  have c: "chests ?S = 2" and m: "mimics ?S = 0" by (simp_all add: CH_init_def)
  have h1: "whole_count (chests ?S)" by (simp add: c whole_count_def)
  have h2: "whole_count (mimics ?S)" by (simp add: m whole_count_def)
  note T = solver_terminates_whole [OF h1 h2, of LOOT Map.empty]
  have ns: "\<not> CH_stop ?S Map.empty" by (simp add: CH_stop_def CH_init_def Let_def)
  have "case calculate_value ?S Map.empty of Inl e \<Rightarrow> False | Inr r \<Rightarrow> True"
    by code_simp
  then obtain v c' tr where r: "calculate_value ?S Map.empty = Inr (v, c', tr)"
    by (cases "calculate_value ?S Map.empty") auto
  from T have t1: "CH_next_decimal ?S LOOT = CH_next ?S LOOT" by blast
  from T have "chests (CH_next_decimal ?S LOOT) = chests ?S - 1" by blast
  then have t2: "chests (CH_next_decimal ?S LOOT) = 1" unfolding c by simp
  from T ns have "nat \<lceil>chests (CH_next_decimal ?S LOOT)\<rceil> < nat \<lceil>chests ?S\<rceil>" by blast
  then have t3: "nat \<lceil>chests (CH_next_decimal ?S LOOT)\<rceil> < 2" unfolding c by simp
  from T r have
    "\<forall>s' \<in> set tr.
       (\<exists>k. 0 < k \<and> k \<le> nat \<lceil>chests ?S\<rceil> \<and> chests s' = chests ?S - of_nat k) \<and>
       (\<forall>t'. CH_next_decimal s' t' = CH_next s' t')"
    by blast
  then have
    "\<forall>s' \<in> set tr.
       (\<exists>k. 0 < k \<and> k \<le> 2 \<and> chests s' = 2 - of_nat k) \<and>
       (\<forall>t'. CH_next_decimal s' t' = CH_next s' t')"
    unfolding c by simp
  with t1 t2 t3 r show ?thesis by blast
qed

text \<open>
  C5 as stated fails on large decimals.  At \<open>chests = 10\<^sup>2\<^sup>9\<close> (\<^verbatim>\<open>Decimal('1E+29')\<close>) the state
  does not stop, the loot branch is taken with chance 1, and \<^verbatim>\<open>ch.chests -= 1\<close> is rounded back
  to \<open>10\<^sup>2\<^sup>9\<close>: \<^verbatim>\<open>next\<close> returns the state it was given, nothing has been stored for it
  yet, and the recursion is on the same state again.
\<close>

theorem decimal_context_counterexample:
  "\<not> CH_stop (CH_init (10 ^ 29) 0 0 0 False 0 0 0 False False True) Map.empty \<and>
   \<not> saver_first (CH_init (10 ^ 29) 0 0 0 False 0 0 0 False False True) \<and>
   CH_chance (CH_init (10 ^ 29) 0 0 0 False 0 0 0 False False True) LOOT = Inr 1 \<and>
   CH_next_decimal (CH_init (10 ^ 29) 0 0 0 False 0 0 0 False False True) LOOT =
     CH_init (10 ^ 29) 0 0 0 False 0 0 0 False False True \<and>
   chests (CH_next_decimal (CH_init (10 ^ 29) 0 0 0 False 0 0 0 False False True) LOOT) \<noteq>
     chests (CH_init (10 ^ 29) 0 0 0 False 0 0 0 False False True) - 1"
proof -
  let ?S = "CH_init (10 ^ 29) 0 0 0 False 0 0 0 False False True"
  have ns: "\<not> CH_stop ?S Map.empty" by (simp add: CH_stop_def CH_init_def Let_def)
  have nf: "\<not> saver_first ?S" by (simp add: saver_first_def CH_init_def)
  have ch: "CH_chance ?S LOOT = Inr 1"
    by (rule chance_loot_plain) (simp_all add: CH_init_def)
  have eq: "CH_next_decimal ?S LOOT = ?S"
    by (simp add: CH_next_decimal_def CH_copy_def CH_init_def Let_def decimal_sub_29_numeral)
  have ne: "chests (CH_next_decimal ?S LOOT) \<noteq> chests ?S - 1" unfolding eq by simp
  from ns nf ch eq ne show ?thesis by blast
qed

section \<open>The armory rate\<close>

text \<open>
  The two binary numbers: \<open>ARMORY_RATE\<close> is the multiple of \<open>2\<^sup>-\<^sup>6\<^sup>0\<close> nearest to \<open>1/200\<close>, with a
  significand of 53 bits, and \<^verbatim>\<open>1 - ARMORY_RATE\<close> is rounded to a multiple of \<open>2\<^sup>-\<^sup>5\<^sup>3\<close>.
\<close>

lemma ARMORY_RATE_nearest:
  "ARMORY_RATE = of_int (round ((1 / 200 :: rat) * 2 ^ 60)) / 2 ^ 60 \<and>
   (2::int) ^ 52 \<le> round ((1 / 200 :: rat) * 2 ^ 60) \<and> round ((1 / 200 :: rat) * 2 ^ 60) < (2::int) ^ 53"
  by code_simp

lemma float_one_minus_ARMORY_RATE: "float_one_minus ARMORY_RATE = 8962163258467287 / 2 ^ 53"
  by code_simp

text \<open>
  C8 fails on the code.  \<^verbatim>\<open>ARMORY_RATE\<close> is a binary float, and so is \<^verbatim>\<open>1 - armory\<close>; neither
  is the decimal \<open>0.005\<close> or \<open>0.995\<close>, and the value of one loot chest with the armory enabled
  has neither \<open>armory = 0.005\<close> nor \<open>loot = 0.995\<close>.
\<close>

theorem armory_rate_inexact:
  "ARMORY_RATE \<noteq> 1 / 200 \<and> float_one_minus ARMORY_RATE \<noteq> 199 / 200 \<and>
   (case calculate_value (CH_init 1 0 0 0 False 0 0 0 False False True) Map.empty of
      Inl e \<Rightarrow> False
    | Inr (v, c, tr) \<Rightarrow> CHValue.armory v \<noteq> 1 / 200 \<and> loot v \<noteq> 199 / 200)"
  by code_simp

section \<open>Conservation\<close>


lemma CHValue_sel [simp]:
  "loot (CHValue_add a b) = loot a + loot b"
  "CHValue.perfect (CHValue_add a b) = CHValue.perfect a + CHValue.perfect b"
  "CHValue.armory (CHValue_add a b) = CHValue.armory a + CHValue.armory b"
  "loot (CHValue_rmul p a) = loot a * p"
  "CHValue.perfect (CHValue_rmul p a) = CHValue.perfect a * p"
  "CHValue.armory (CHValue_rmul p a) = CHValue.armory a * p"
  by (simp_all add: CHValue_add_def CHValue_rmul_def CHValue_mul_def)






section \<open>The probability of a perfect hunt\<close>







section \<open>The constructor\<close>

text \<open>
  C10.  Whatever the arguments, a state built with more than one doubler has \<open>dd\<close> set and
  \<open>perfect\<close> cleared, and the \<open>chase\<close> flag of every new state is its \<open>perfect\<close> flag as
  stored, that is after the override.
\<close>

theorem CH_init_normalises:
  "(1 < n_doublers \<longrightarrow>
      dd (CH_init c m sv s a cs n_doublers ds d p ar) \<and>
      \<not> CH.perfect (CH_init c m sv s a cs n_doublers ds d p ar)) \<and>
   chase (CH_init c m sv s a cs n_doublers ds d p ar) =
     CH.perfect (CH_init c m sv s a cs n_doublers ds d p ar)"
  by (simp add: CH_init_def Let_def)

theorem CH_init_normalises_witness:
  "(1::int) < 2 \<and>
   dd (CH_init 30 4 0 0 False 0 2 0 False True True) \<and>
   \<not> CH.perfect (CH_init 30 4 0 0 False 0 2 0 False True True) \<and>
   \<not> chase (CH_init 30 4 0 0 False 0 2 0 False True True)"
  using CH_init_normalises [of 2 30 4 0 0 False 0 0 False True True] by simp

end
